theory Spec2Isabelle
  imports
    Main
    "HOL-Library.Word"
    "HOL-Library.Multiset"
    "HOL-Library.Sublist"
    "HOL-Library.Char_ord"
    "HOL-Library.List_Lexorder"
    "HOL-Library.Product_Lexorder"
begin

unbundle bit_operations_syntax

section \<open>Python values, errors and the file system\<close>

text \<open>
  The module \<^verbatim>\<open>pandas_plink/read.py\<close> is embedded function by function.  A Python name
  with a leading underscore (\<^verbatim>\<open>_read_bed\<close>) is written with the prefix \<open>u_\<close>
  (\<open>u_read_bed\<close>); the other names are kept.  The semantics is that of Python 3
  (\<^verbatim>\<open>PY3\<close> is true, so \<^verbatim>\<open>_ord\<close> is the identity on the integers that indexing a
  \<^verbatim>\<open>bytes\<close> value gives).
\<close>

type_synonym byte = "8 word"

text \<open>
  A path is a \<^verbatim>\<open>str\<close> or a \<^verbatim>\<open>bytes\<close> value.  Both carry their text as a list of
  8-bit characters.  A \<^verbatim>\<open>str\<close> is carried as the bytes that \<^verbatim>\<open>os.fsencode\<close> gives for it
  (UTF-8 with \<^verbatim>\<open>surrogateescape\<close>), the name under which \<^verbatim>\<open>open\<close> finds the file: a \<^verbatim>\<open>str\<close>
  without surrogates is carried as its UTF-8 form; a \<^verbatim>\<open>str\<close> that \<^verbatim>\<open>os.fsdecode\<close> made from
  a file name that is not UTF-8 holds a lone surrogate for every byte that does not
  decode, and is carried as the bytes of that file name, which are not well-formed UTF-8.
\<close>

datatype pyval = Str string | Bytes string

datatype error =
    ValueError string
  | IndexError
  | FileNotFoundError string
  | KeyError string
  | UnicodeEncodeError
  | AttributeError
  | TruncatedFile
  | ParserError

fun chars_of :: "pyval \<Rightarrow> string" where
  "chars_of (Str s) = s"
| "chars_of (Bytes b) = b"

fun isinstance_bytes :: "pyval \<Rightarrow> bool" where
  "isinstance_bytes (Str s) = False"
| "isinstance_bytes (Bytes b) = True"

text \<open>
  Well-formed UTF-8 (the byte sequences of the Unicode standard, which exclude the
  surrogates): \<open>utf8_sequence s\<close> is the length of the well-formed sequence at the head
  of \<open>s\<close>.
\<close>

definition in_range :: "nat \<Rightarrow> nat \<Rightarrow> char \<Rightarrow> bool" where
  "in_range lo hi c = (lo \<le> of_char c \<and> of_char c \<le> hi)"

definition utf8_sequence :: "string \<Rightarrow> nat option" where
  "utf8_sequence s =
     (case s of
        [] \<Rightarrow> None
      | a # r \<Rightarrow>
          if in_range 0x00 0x7F a then Some 1
          else if in_range 0xC2 0xDF a then
            (case r of
               b # _ \<Rightarrow> if in_range 0x80 0xBF b then Some 2 else None
             | _ \<Rightarrow> None)
          else if in_range 0xE0 0xEF a then
            (case r of
               b # c # _ \<Rightarrow>
                 if in_range (if a = CHR 0xE0 then 0xA0 else 0x80)
                      (if a = CHR 0xED then 0x9F else 0xBF) b \<and>
                    in_range 0x80 0xBF c
                 then Some 3 else None
             | _ \<Rightarrow> None)
          else if in_range 0xF0 0xF4 a then
            (case r of
               b # c # d # _ \<Rightarrow>
                 if in_range (if a = CHR 0xF0 then 0x90 else 0x80)
                      (if a = CHR 0xF4 then 0x8F else 0xBF) b \<and>
                    in_range 0x80 0xBF c \<and> in_range 0x80 0xBF d
                 then Some 4 else None
             | _ \<Rightarrow> None)
          else None)"

fun valid_utf8 :: "string \<Rightarrow> bool" where
  "valid_utf8 [] = True"
| "valid_utf8 (c # cs) =
     (case utf8_sequence (c # cs) of
        None \<Rightarrow> False
      | Some n \<Rightarrow> valid_utf8 (drop (n - 1) cs))"

text \<open>
  \<^verbatim>\<open>v.encode()\<close>: the UTF-8 bytes of a \<^verbatim>\<open>str\<close>; a \<^verbatim>\<open>str\<close> that holds a lone surrogate
  raises UnicodeEncodeError.  A \<^verbatim>\<open>bytes\<close> value has no method \<^verbatim>\<open>encode\<close>.
\<close>

fun encode :: "pyval \<Rightarrow> error + pyval" where
  "encode (Str s) = (if valid_utf8 s then Inr (Bytes s) else Inl UnicodeEncodeError)"
| "encode (Bytes b) = Inl AttributeError"

text \<open>
  The world a call runs in: the files (read only), the log of the paths opened so far, in
  order, and the diagnostic stream.
\<close>

record world =
  files :: "string \<rightharpoonup> byte list"
  opened :: "string list"
  stdout :: "string list"

type_synonym 'a io = "world \<Rightarrow> (error + 'a) \<times> world"

text \<open>\<^verbatim>\<open>open(fn, "rb")\<close> followed by reading: the open is logged, a missing file raises.\<close>

definition py_open :: "pyval \<Rightarrow> (byte list) io" where
  "py_open fn w =
     (let w' = w\<lparr>opened := opened w @ [chars_of fn]\<rparr>
      in case files w (chars_of fn) of
           None \<Rightarrow> (Inl (FileNotFoundError (chars_of fn)), w')
         | Some content \<Rightarrow> (Inr content, w'))"

text \<open>\<^verbatim>\<open>arr[k]\<close> for a literal index \<open>k\<close>: IndexError out of range.\<close>

definition getitem :: "'a list \<Rightarrow> nat \<Rightarrow> error + 'a" where
  "getitem arr k = (if k < length arr then Inr (arr ! k) else Inl IndexError)"

definition u_ord :: "byte \<Rightarrow> int" where
  "u_ord x = uint x"

subsection \<open>The conversion \<^verbatim>\<open>"%s" % v\<close>\<close>

definition hexdigit :: "nat \<Rightarrow> char" where
  "hexdigit n = ''0123456789abcdef'' ! n"

definition repr_char :: "char \<Rightarrow> char \<Rightarrow> string" where
  "repr_char quote c =
     (if c = quote \<or> c = CHR 0x5C then [CHR 0x5C, c]
      else if c = CHR 0x09 then [CHR 0x5C, CHR ''t'']
      else if c = CHR 0x0A then [CHR 0x5C, CHR ''n'']
      else if c = CHR 0x0D then [CHR 0x5C, CHR ''r'']
      else if (of_char c :: nat) < 0x20 \<or> 0x7F \<le> (of_char c :: nat)
        then [CHR 0x5C, CHR ''x'', hexdigit (of_char c div 16), hexdigit (of_char c mod 16)]
      else [c])"

definition bytes_repr :: "string \<Rightarrow> string" where
  "bytes_repr b =
     (let quote = (if CHR 0x27 \<in> set b \<and> CHR 0x22 \<notin> set b then CHR 0x22 else CHR 0x27)
      in [CHR ''b'', quote] @ concat (map (repr_char quote) b) @ [quote])"

fun format_s :: "pyval \<Rightarrow> string" where
  "format_s (Str s) = s"
| "format_s (Bytes b) = bytes_repr b"

section \<open>The header of the .bed file\<close>

definition u_ascii_airlock :: "pyval \<Rightarrow> error + pyval" where
  "u_ascii_airlock v = (if \<not> isinstance_bytes v then encode v else Inr v)"

definition u_check_bed_header :: "pyval \<Rightarrow> unit io" where
  "u_check_bed_header fn w =
     (case py_open fn w of
        (Inl e, w') \<Rightarrow> (Inl e, w')
      | (Inr f, w') \<Rightarrow>
          (let arr = take 2 f
           in (case getitem arr 0 of
                 Inl e \<Rightarrow> Inl e
               | Inr x0 \<Rightarrow>
                   if u_ord x0 = 108
                   then (case getitem arr 1 of
                           Inl e \<Rightarrow> Inl e
                         | Inr x1 \<Rightarrow>
                             if u_ord x1 = 27 then Inr ()
                             else Inl (ValueError (''Invalid BED file: '' @ format_s fn @ ''.'')))
                   else Inl (ValueError (''Invalid BED file: '' @ format_s fn @ ''.''))),
              w'))"

definition layout_msg :: string where
  "layout_msg = ''Couldn'' @ [CHR 0x27] @ ''t understand matrix layout.''"

definition u_major_order :: "pyval \<Rightarrow> string io" where
  "u_major_order fn w =
     (case py_open fn w of
        (Inl e, w') \<Rightarrow> (Inl e, w')
      | (Inr f, w') \<Rightarrow>
          (let arr = take 1 (drop 2 f)
           in (case getitem arr 0 of
                 Inl e \<Rightarrow> Inl e
               | Inr x0 \<Rightarrow>
                   if u_ord x0 = 1 then Inr ''snp''
                   else if u_ord x0 = 0 then Inr ''individual''
                   else Inl (ValueError layout_msg)),
              w'))"


subsection \<open>Sequencing calls that may raise\<close>

definition return :: "'a \<Rightarrow> 'a io" where
  "return x w = (Inr x, w)"

definition lift :: "error + 'a \<Rightarrow> 'a io" where
  "lift r w = (r, w)"

definition io_bind :: "'a io \<Rightarrow> ('a \<Rightarrow> 'b io) \<Rightarrow> 'b io" where
  "io_bind m f w = (case m w of (Inl e, w') \<Rightarrow> (Inl e, w') | (Inr x, w') \<Rightarrow> f x w')"

section \<open>The metadata tables\<close>

text \<open>
  A row of the .bim table and of the .fam table, with the columns of the \<^verbatim>\<open>header\<close>
  dictionaries.  The float column \<open>cm\<close> has the abstract type \<open>'f\<close>.  A data frame is the
  list of its rows, in row order; the column \<open>i\<close> is added by the readers.
\<close>

record 'f bim_rec =
  chrom :: string
  snp :: string
  cm :: 'f
  pos :: int
  a0 :: string
  a1 :: string

record fam_rec =
  fid :: string
  iid :: string
  father :: string
  mother :: string
  gender :: string
  trait :: string

record 'r indexed =
  cols :: 'r
  i :: nat

text \<open>
  \<^verbatim>\<open>pd.read_csv(fn, ...)\<close> of the pandas library: it opens the file and parses its bytes
  into rows.  The parser for the given column schema is the parameter \<open>parse\<close>.
\<close>

definition read_csv :: "(byte list \<Rightarrow> error + 'r list) \<Rightarrow> pyval \<Rightarrow> ('r list) io" where
  "read_csv parse fn w =
     (case py_open fn w of
        (Inl e, w') \<Rightarrow> (Inl e, w')
      | (Inr content, w') \<Rightarrow> (parse content, w'))"

text \<open>\<^verbatim>\<open>df['i'] = range(df.shape[0])\<close>\<close>

definition assign_i :: "'r list \<Rightarrow> 'r indexed list" where
  "assign_i df = map (\<lambda>(r, k). \<lparr>cols = r, i = k\<rparr>) (zip df [0..<length df])"

text \<open>\<^verbatim>\<open>df.sort_index()\<close>: the rows in the order of their index key, ties in row order.\<close>

definition sort_index :: "('r \<Rightarrow> 'k::linorder) \<Rightarrow> 'r list \<Rightarrow> 'r list" where
  "sort_index key df = sort_key key df"

text \<open>
  The index of a table, by which \<^verbatim>\<open>sort_index\<close> orders the rows: \<^verbatim>\<open>(chrom, pos)\<close> for the
  .bim table (\<^verbatim>\<open>set_index(['chrom', 'pos'])\<close>), \<^verbatim>\<open>(fid, iid)\<close> for the .fam table
  (\<^verbatim>\<open>index_col=['fid', 'iid']\<close>).  The conversions \<^verbatim>\<open>astype('category')\<close> keep the values of a
  column and are not modelled.
\<close>

definition bim_index :: "'f bim_rec indexed \<Rightarrow> string \<times> int" where
  "bim_index x = (chrom (cols x), pos (cols x))"

definition fam_index :: "fam_rec indexed \<Rightarrow> string \<times> string" where
  "fam_index x = (fid (cols x), iid (cols x))"

definition u_read_bim ::
  "(byte list \<Rightarrow> error + 'f bim_rec list) \<Rightarrow> pyval \<Rightarrow> ('f bim_rec indexed list) io" where
  "u_read_bim parse fn w =
     (case read_csv parse fn w of
        (Inl e, w') \<Rightarrow> (Inl e, w')
      | (Inr df, w') \<Rightarrow> (Inr (sort_index bim_index (assign_i df)), w'))"

definition u_read_fam ::
  "(byte list \<Rightarrow> error + fam_rec list) \<Rightarrow> pyval \<Rightarrow> (fam_rec indexed list) io" where
  "u_read_fam parse fn w =
     (case read_csv parse fn w of
        (Inl e, w') \<Rightarrow> (Inl e, w')
      | (Inr df, w') \<Rightarrow> (Inr (sort_index fam_index (assign_i df)), w'))"

section \<open>Reading the genotype file\<close>

definition u_read_bed ::
  "(pyval \<Rightarrow> nat \<Rightarrow> nat \<Rightarrow> 'g io) \<Rightarrow> pyval \<Rightarrow> nat \<Rightarrow> nat \<Rightarrow> 'g io" where
  "u_read_bed read_bed_fn fn0 nsamples nmarkers w =
     (case u_ascii_airlock fn0 of
        Inl e \<Rightarrow> (Inl e, w)
      | Inr fn \<Rightarrow>
          (case u_check_bed_header fn w of
             (Inl e, w1) \<Rightarrow> (Inl e, w1)
           | (Inr _, w1) \<Rightarrow>
               (case u_major_order fn w1 of
                  (Inl e, w2) \<Rightarrow> (Inl e, w2)
                | (Inr major, w2) \<Rightarrow>
                    (let ncols = (if major = ''individual'' then nmarkers else nsamples);
                         nrows = (if major = ''snp'' then nmarkers else nsamples)
                     in read_bed_fn fn nrows ncols w2))))"

text \<open>
  Modelled from the spec: \<^verbatim>\<open>read_bed(fn, nrows, ncols)\<close> of the native module
  \<^verbatim>\<open>_bed_read\<close>, which is not among the sources.  It opens the file and hands its bytes,
  with the physical dimensions, to the Bit-Unpacking Codec, which is the parameter
  \<open>decoder\<close>.
\<close>

definition read_bed ::
  "(byte list \<Rightarrow> nat \<Rightarrow> nat \<Rightarrow> error + 'g) \<Rightarrow> pyval \<Rightarrow> nat \<Rightarrow> nat \<Rightarrow> 'g io" where
  "read_bed decoder fn nrows ncols w =
     (case py_open fn w of
        (Inl e, w') \<Rightarrow> (Inl e, w')
      | (Inr content, w') \<Rightarrow> (decoder content nrows ncols, w'))"

text \<open>
  Modelled from the spec: the context manager \<^verbatim>\<open>TimeIt(desc, disable)\<close> of the module
  \<^verbatim>\<open>_timeit\<close>, which is not among the sources.  Unless disabled it reports progress to
  the diagnostic stream, before the block and after a block that did not raise; it
  does nothing else.
\<close>

definition TimeIt :: "string \<Rightarrow> bool \<Rightarrow> 'a io \<Rightarrow> 'a io" where
  "TimeIt desc disable body w =
     (let w1 = (if disable then w else w\<lparr>stdout := stdout w @ [desc]\<rparr>)
      in case body w1 of
           (r, w2) \<Rightarrow>
             (r, if disable \<or> isl r then w2 else w2\<lparr>stdout := stdout w2 @ ['' done.'']\<rparr>))"

section \<open>The entry point\<close>

text \<open>\<^verbatim>\<open>d[k]\<close> on a dictionary.\<close>

definition dict_get :: "(string \<rightharpoonup> 'v) \<Rightarrow> string \<Rightarrow> error + 'v" where
  "dict_get d k = (case d k of None \<Rightarrow> Inl (KeyError k) | Some v \<Rightarrow> Inr v)"

text \<open>
  The parsers of the two pandas calls and the codec of the native decoder are parameters.
  The result is the triple \<^verbatim>\<open>(bim, fam, bed)\<close>.
\<close>

definition read_plink ::
  "(byte list \<Rightarrow> error + 'f bim_rec list) \<Rightarrow> (byte list \<Rightarrow> error + fam_rec list) \<Rightarrow>
   (byte list \<Rightarrow> nat \<Rightarrow> nat \<Rightarrow> error + 'g) \<Rightarrow> pyval \<Rightarrow> bool \<Rightarrow>
   ('f bim_rec indexed list \<times> fam_rec indexed list \<times> 'g) io" where
  "read_plink parse_bim parse_fam decoder file_prefix verbose =
     (let fn = map_of (map (\<lambda>s. (s, Str (format_s file_prefix @ ''.'' @ s)))
                          [''bed'', ''bim'', ''fam''])
      in io_bind (lift (dict_get fn ''bim'')) (\<lambda>fn_bim.
         io_bind (TimeIt (''Reading '' @ format_s fn_bim @ ''...'') (\<not> verbose)
                    (u_read_bim parse_bim fn_bim)) (\<lambda>bim.
         let nmarkers = length bim in
         io_bind (lift (dict_get fn ''fam'')) (\<lambda>fn_fam.
         io_bind (TimeIt (''Reading '' @ format_s fn_fam @ ''...'') (\<not> verbose)
                    (u_read_fam parse_fam fn_fam)) (\<lambda>fam.
         let nsamples = length fam in
         io_bind (lift (dict_get fn ''bed'')) (\<lambda>fn_bed.
         io_bind (TimeIt (''Reading '' @ format_s fn_bed @ ''...'') (\<not> verbose)
                    (u_read_bed (read_bed decoder) fn_bed nsamples nmarkers)) (\<lambda>bed.
         return (bim, fam, bed))))))))"

section \<open>The Bit-Unpacking Codec\<close>

text \<open>
  Modelled from the spec: the codec of the native decoder, which is not among the
  sources.  Genotypes are packed four per byte, two bits each, least-significant pair
  first; \<open>code_at b k\<close> is the \<open>k\<close>-th pair of the byte \<open>b\<close>.
\<close>

definition code_at :: "byte \<Rightarrow> nat \<Rightarrow> byte" where
  "code_at b k = drop_bit (2 * k) b AND 3"

text \<open>
  Modelled from the spec: the 4-way mapping of a 2-bit code to a genotype call,
  0b00 to 2, 0b10 to 1, 0b11 to 0 and 0b01 to the missing sentinel 3.
\<close>

definition genotype_of_code :: "byte \<Rightarrow> nat" where
  "genotype_of_code c =
     (if c = 0 then 2 else if c = 2 then 1 else if c = 3 then 0 else 3)"

text \<open>Modelled from the spec: a byte unpacks to exactly four genotype calls.\<close>

definition unpack_byte :: "byte \<Rightarrow> nat list" where
  "unpack_byte b = map (\<lambda>k. genotype_of_code (code_at b k)) [0..<4]"

text \<open>
  Modelled from the spec: each physical row is padded to a whole number of bytes,
  \<open>bytes_per_row = ceil(num_cols / 4)\<close>.
\<close>

definition bytes_per_row :: "nat \<Rightarrow> nat" where
  "bytes_per_row ncols = (ncols + 3) div 4"

text \<open>
  Modelled from the spec: one physical row; the padding pairs of its last byte are
  ignored.
\<close>

definition decode_row :: "nat \<Rightarrow> byte list \<Rightarrow> nat list" where
  "decode_row ncols bs = take ncols (concat (map unpack_byte bs))"

text \<open>
  Modelled from the spec: the physical rows of a payload.  A payload shorter than
  \<open>bytes_per_row * num_physical_rows\<close> fails with TruncatedFile; trailing bytes beyond
  it are not read.
\<close>

definition decode_rows :: "byte list \<Rightarrow> nat \<Rightarrow> nat \<Rightarrow> error + nat list list" where
  "decode_rows payload nrows ncols =
     (if length payload < bytes_per_row ncols * nrows then Inl TruncatedFile
      else Inr (map (\<lambda>r. decode_row ncols
                            (take (bytes_per_row ncols) (drop (r * bytes_per_row ncols) payload)))
                    [0..<nrows]))"

datatype orientation = SnpMajor | IndividualMajor

text \<open>
  Modelled from the spec: the transposition that places the physical cell (row, column)
  at the logical cell (column, row); \<open>m\<close> has \<open>nrows\<close> rows and \<open>ncols\<close> columns.
\<close>

definition transpose_matrix :: "nat \<Rightarrow> nat \<Rightarrow> 'a list list \<Rightarrow> 'a list list" where
  "transpose_matrix nrows ncols m = map (\<lambda>c. map (\<lambda>r. m ! r ! c) [0..<nrows]) [0..<ncols]"

text \<open>
  Modelled from the spec: physical rows are markers and physical columns samples when
  the file is snp-major, and the other way round when it is individual-major.
\<close>

fun physical_dims :: "orientation \<Rightarrow> nat \<Rightarrow> nat \<Rightarrow> nat \<times> nat" where
  "physical_dims SnpMajor num_samples num_markers = (num_markers, num_samples)"
| "physical_dims IndividualMajor num_samples num_markers = (num_samples, num_markers)"

text \<open>
  Modelled from the spec: the codec.  From the payload after the 3-byte header, the
  numbers of samples and markers and the orientation it gives the GenotypeMatrix of
  logical shape (num_markers, num_samples), \<open>matrix ! marker ! sample\<close>.
\<close>

fun bit_unpack :: "byte list \<Rightarrow> nat \<Rightarrow> nat \<Rightarrow> orientation \<Rightarrow> error + nat list list" where
  "bit_unpack payload num_samples num_markers SnpMajor =
     decode_rows payload num_markers num_samples"
| "bit_unpack payload num_samples num_markers IndividualMajor =
     (case decode_rows payload num_samples num_markers of
        Inl e \<Rightarrow> Inl e
      | Inr m \<Rightarrow> Inr (transpose_matrix num_samples num_markers m))"

subsection \<open>Re-encoding\<close>

text \<open>
  Modelled from the spec: the inverse of the 4-way mapping, 2 to 0b00, 1 to 0b10, 0 to
  0b11 and the missing sentinel 3 to 0b01.
\<close>

definition code_of_genotype :: "nat \<Rightarrow> byte" where
  "code_of_genotype g =
     (if g = 2 then 0 else if g = 1 then 2 else if g = 0 then 3 else 1)"

text \<open>
  Modelled from the spec: up to four codes packed in one byte, least-significant pair
  first; the pairs of row padding are zero.
\<close>

fun pack_codes :: "byte list \<Rightarrow> byte" where
  "pack_codes [] = 0"
| "pack_codes (c # cs) = c OR push_bit 2 (pack_codes cs)"

text \<open>
  Modelled from the spec: a row packed four cells per byte into \<open>ceil(num_cols / 4)\<close>
  bytes, and the rows of a matrix one after the other.
\<close>

definition encode_row :: "nat list \<Rightarrow> byte list" where
  "encode_row row =
     map (\<lambda>j. pack_codes (map code_of_genotype (take 4 (drop (4 * j) row))))
         [0..<bytes_per_row (length row)]"

definition encode_rows :: "nat list list \<Rightarrow> byte list" where
  "encode_rows m = concat (map encode_row m)"

text \<open>
  Modelled from the spec: the packed payload of a GenotypeMatrix of logical shape (num_markers, num_samples) in
  the given orientation.
\<close>

fun bit_pack :: "orientation \<Rightarrow> nat \<Rightarrow> nat \<Rightarrow> nat list list \<Rightarrow> byte list" where
  "bit_pack SnpMajor num_samples num_markers m = encode_rows m"
| "bit_pack IndividualMajor num_samples num_markers m =
     encode_rows (transpose_matrix num_markers num_samples m)"


section \<open>Example worlds\<close>

definition bed_path :: string where
  "bed_path = ''data/chr1.bed''"

definition world_of :: "byte list \<Rightarrow> world" where
  "world_of content = \<lparr>files = [bed_path \<mapsto> content], opened = [], stdout = []\<rparr>"


text \<open>
  A small data set: three markers, out of index order in the .bim file, two samples, and
  a snp-major .bed file of three rows.
\<close>

definition bytes_of :: "string \<Rightarrow> byte list" where
  "bytes_of s = map of_char s"

definition bim_text :: "byte list" where
  "bim_text = bytes_of ''2 rs3 0 100 A G 1 rs2 0 45257 C T 1 rs1 0 45162 G C''"

definition fam_text :: "byte list" where
  "fam_text = bytes_of ''F2 S2 0 0 2 -9 F1 S1 0 0 1 -9''"

definition example_bim :: "int bim_rec list" where
  "example_bim =
     [\<lparr>chrom = ''2'', snp = ''rs3'', cm = 0, pos = 100, a0 = ''A'', a1 = ''G''\<rparr>,
      \<lparr>chrom = ''1'', snp = ''rs2'', cm = 0, pos = 45257, a0 = ''C'', a1 = ''T''\<rparr>,
      \<lparr>chrom = ''1'', snp = ''rs1'', cm = 0, pos = 45162, a0 = ''G'', a1 = ''C''\<rparr>]"

definition example_fam :: "fam_rec list" where
  "example_fam =
     [\<lparr>fid = ''F2'', iid = ''S2'', father = ''0'', mother = ''0'', gender = ''2'', trait = ''-9''\<rparr>,
      \<lparr>fid = ''F1'', iid = ''S1'', father = ''0'', mother = ''0'', gender = ''1'', trait = ''-9''\<rparr>]"

definition example_parse_bim :: "byte list \<Rightarrow> error + int bim_rec list" where
  "example_parse_bim content = (if content = bim_text then Inr example_bim else Inl ParserError)"

definition example_parse_fam :: "byte list \<Rightarrow> error + fam_rec list" where
  "example_parse_fam content = (if content = fam_text then Inr example_fam else Inl ParserError)"

definition plink_world :: world where
  "plink_world =
     \<lparr>files = [''data/chr1.bed'' \<mapsto> [108, 27, 1, 0xD8, 0x0C, 0x27],
               ''data/chr1.bim'' \<mapsto> bim_text,
               ''data/chr1.fam'' \<mapsto> fam_text],
      opened = [], stdout = []\<rparr>"

text \<open>A decoder that returns the dimensions it is called with.\<close>

definition dims_decoder :: "byte list \<Rightarrow> nat \<Rightarrow> nat \<Rightarrow> error + nat \<times> nat" where
  "dims_decoder content nrows ncols = Inr (nrows, ncols)"

text \<open>
  \<open>follows m1 m2\<close>: from any state of the diagnostic stream, \<open>m1\<close> gives the result of \<open>m2\<close>
  and the world of \<open>m2\<close> but for the diagnostic stream.
\<close>

definition follows :: "'a io \<Rightarrow> 'a io \<Rightarrow> bool" where
  "follows m1 m2 =
     (\<forall>w s. \<exists>s'. m1 (w\<lparr>stdout := s\<rparr>) = (fst (m2 w), (snd (m2 w))\<lparr>stdout := s'\<rparr>))"

text \<open>The codec as a decoder of the file's bytes: the payload follows the 3-byte header.\<close>

definition example_decoder :: "byte list \<Rightarrow> nat \<Rightarrow> nat \<Rightarrow> error + nat list list" where
  "example_decoder content nrows ncols = decode_rows (drop 3 content) nrows ncols"

section \<open>The header validator\<close>

lemma u_ord_eq_iff:
  "(u_ord x = 108) = (x = 108)" "(u_ord x = 27) = (x = 27)"
  "(u_ord x = 1) = (x = 1)" "(u_ord x = 0) = (x = 0)"
  by (simp_all add: u_ord_def word_uint_eq_iff)

text \<open>
  C1.  On a .bed file of at least two bytes, \<^verbatim>\<open>_check_bed_header\<close> raises the
  ValueError of an invalid file for every pair of first bytes other than (0x6C, 0x1B),
  and raises nothing for that pair; the two bytes range over all 256 x 256 values.
\<close>

theorem check_bed_header_magic:
  assumes "files w (chars_of fn) = Some (b0 # b1 # rest)"
  shows "fst (u_check_bed_header fn w) =
           (if b0 = 108 \<and> b1 = 27 then Inr ()
            else Inl (ValueError (''Invalid BED file: '' @ format_s fn @ ''.'')))"
  using assms
  by (simp add: u_check_bed_header_def py_open_def getitem_def Let_def u_ord_eq_iff)

theorem check_bed_header_magic_witness:
  "files (world_of [108, 27, 1, 0xD8]) (chars_of (Str bed_path)) = Some (108 # 27 # [1, 0xD8]) \<and>
   fst (u_check_bed_header (Str bed_path) (world_of [108, 27, 1, 0xD8])) = Inr () \<and>
   files (world_of [108, 28, 1, 0xD8]) (chars_of (Str bed_path)) = Some (108 # 28 # [1, 0xD8]) \<and>
   fst (u_check_bed_header (Str bed_path) (world_of [108, 28, 1, 0xD8])) =
     Inl (ValueError ''Invalid BED file: data/chr1.bed.'')"
  using check_bed_header_magic [of "world_of [108, 27, 1, 0xD8]" "Str bed_path" 108 27 "[1, 0xD8]"]
    check_bed_header_magic [of "world_of [108, 28, 1, 0xD8]" "Str bed_path" 108 28 "[1, 0xD8]"]
  by (simp add: world_of_def bed_path_def)

text \<open>
  C2.  On a .bed file of at least three bytes, \<^verbatim>\<open>_major_order\<close> returns \<^verbatim>\<open>'snp'\<close> when
  byte 2 is 1, \<^verbatim>\<open>'individual'\<close> when it is 0, and raises a ValueError for every other
  value; it raises if and only if byte 2 is not in {0, 1}.
\<close>

theorem major_order_byte:
  assumes "files w (chars_of fn) = Some (b0 # b1 # b2 # rest)"
  shows "fst (u_major_order fn w) =
           (if b2 = 1 then Inr ''snp''
            else if b2 = 0 then Inr ''individual''
            else Inl (ValueError layout_msg))
         \<and> (isl (fst (u_major_order fn w)) \<longleftrightarrow> b2 \<notin> {0, 1})"
  using assms
  by (simp add: u_major_order_def py_open_def getitem_def Let_def u_ord_eq_iff)

theorem major_order_byte_witness:
  "files (world_of [108, 27, 1, 0xD8]) (chars_of (Str bed_path)) = Some (108 # 27 # 1 # [0xD8]) \<and>
   fst (u_major_order (Str bed_path) (world_of [108, 27, 1, 0xD8])) = Inr ''snp'' \<and>
   files (world_of [108, 27, 0, 0xD8]) (chars_of (Str bed_path)) = Some (108 # 27 # 0 # [0xD8]) \<and>
   fst (u_major_order (Str bed_path) (world_of [108, 27, 0, 0xD8])) = Inr ''individual'' \<and>
   files (world_of [108, 27, 2, 0xD8]) (chars_of (Str bed_path)) = Some (108 # 27 # 2 # [0xD8]) \<and>
   fst (u_major_order (Str bed_path) (world_of [108, 27, 2, 0xD8])) = Inl (ValueError layout_msg)"
  using major_order_byte [of "world_of [108, 27, 1, 0xD8]" "Str bed_path" 108 27 1 "[0xD8]"]
    major_order_byte [of "world_of [108, 27, 0, 0xD8]" "Str bed_path" 108 27 0 "[0xD8]"]
    major_order_byte [of "world_of [108, 27, 2, 0xD8]" "Str bed_path" 108 27 2 "[0xD8]"]
  by (simp add: world_of_def bed_path_def)

text \<open>
  C9, as stated: on a .bed file of fewer than two bytes \<^verbatim>\<open>_check_bed_header\<close> raises
  IndexError and never the ValueError of an invalid file.  The file holding the single
  byte 0x41 refutes it: \<^verbatim>\<open>and\<close> does not evaluate \<^verbatim>\<open>arr[1]\<close> once \<^verbatim>\<open>arr[0]\<close> differs
  from 108, and the ValueError is raised.
\<close>

theorem short_header_counterexample:
  "length [0x41 :: byte] < 2 \<and>
   fst (u_check_bed_header (Str bed_path) (world_of [0x41])) =
     Inl (ValueError ''Invalid BED file: data/chr1.bed.'')"
  by (simp add: u_check_bed_header_def py_open_def getitem_def Let_def u_ord_eq_iff
      world_of_def bed_path_def)

text \<open>
  C9, amended: on a .bed file of fewer than two bytes, \<^verbatim>\<open>_check_bed_header\<close> raises
  IndexError when the file is empty or holds the single byte 0x6C, and the ValueError
  of an invalid file when it holds a single byte other than 0x6C.
\<close>

theorem short_header_error:
  assumes "files w (chars_of fn) = Some content" and "length content < 2"
  shows "fst (u_check_bed_header fn w) =
           (if content = [] \<or> content = [108] then Inl IndexError
            else Inl (ValueError (''Invalid BED file: '' @ format_s fn @ ''.'')))"
proof (cases content)
  case Nil
  with assms show ?thesis
    by (simp add: u_check_bed_header_def py_open_def getitem_def)
next
  case (Cons x xs)
  with assms(2) have "xs = []" by simp
  with Cons assms(1) show ?thesis
    by (simp add: u_check_bed_header_def py_open_def getitem_def u_ord_eq_iff)
qed

theorem short_header_error_witness:
  "files (world_of [108]) (chars_of (Str bed_path)) = Some [108] \<and> length [108 :: byte] < 2 \<and>
   fst (u_check_bed_header (Str bed_path) (world_of [108])) = Inl IndexError \<and>
   files (world_of []) (chars_of (Str bed_path)) = Some [] \<and> length ([] :: byte list) < 2 \<and>
   fst (u_check_bed_header (Str bed_path) (world_of [])) = Inl IndexError"
  using short_header_error [of "world_of [108]" "Str bed_path" "[108]"]
    short_header_error [of "world_of []" "Str bed_path" "[]"]
  by (simp add: world_of_def bed_path_def)

lemma valid_utf8_bed_path: "valid_utf8 bed_path"
  by (simp add: bed_path_def utf8_sequence_def in_range_def)

lemma ascii_airlock_Str:
  "u_ascii_airlock (Str s) = (if valid_utf8 s then Inr (Bytes s) else Inl UnicodeEncodeError)"
  by (simp add: u_ascii_airlock_def)

lemma ascii_airlock_Bytes: "u_ascii_airlock (Bytes b) = Inr (Bytes b)"
  by (simp add: u_ascii_airlock_def)

lemma ascii_airlock_returns:
  "u_ascii_airlock v = Inr r \<Longrightarrow> r = Bytes (chars_of v)"
  by (cases v) (auto simp: u_ascii_airlock_def split: if_splits)

text \<open>
  C10, as stated: for every \<^verbatim>\<open>str\<close> or \<^verbatim>\<open>bytes\<close> input the result of \<^verbatim>\<open>_ascii_airlock\<close> is
  of type \<^verbatim>\<open>bytes\<close>.  The \<^verbatim>\<open>str\<close> that \<^verbatim>\<open>os.fsdecode\<close> gives for the file name
  \<^verbatim>\<open>data/\xff.bed\<close> refutes it: it holds a lone surrogate, \<^verbatim>\<open>v.encode()\<close> raises
  UnicodeEncodeError, and there is no result.
\<close>

theorem ascii_airlock_surrogate_counterexample:
  "u_ascii_airlock (Str (''data/'' @ [CHR 0xFF] @ ''.bed'')) = Inl UnicodeEncodeError"
  by (simp add: u_ascii_airlock_def utf8_sequence_def in_range_def)

text \<open>
  C10, amended: \<^verbatim>\<open>_ascii_airlock\<close> is the identity on \<^verbatim>\<open>bytes\<close> values; on a \<^verbatim>\<open>str\<close> that
  is UTF-8-encodable it returns the UTF-8 bytes, and on a \<^verbatim>\<open>str\<close> that holds a lone
  surrogate it raises UnicodeEncodeError; whenever it returns, the result is of type
  \<^verbatim>\<open>bytes\<close> and applying it again returns the same value, so it is idempotent, an
  error of the first call being the error of the two calls.
\<close>

theorem ascii_airlock_idempotent:
  "u_ascii_airlock (Bytes b) = Inr (Bytes b) \<and>
   (valid_utf8 s \<longrightarrow> u_ascii_airlock (Str s) = Inr (Bytes s)) \<and>
   (\<not> valid_utf8 s \<longrightarrow> u_ascii_airlock (Str s) = Inl UnicodeEncodeError) \<and>
   (u_ascii_airlock v = Inr r \<longrightarrow> isinstance_bytes r \<and> u_ascii_airlock r = Inr r) \<and>
   (case u_ascii_airlock v of Inl e \<Rightarrow> Inl e | Inr r \<Rightarrow> u_ascii_airlock r) = u_ascii_airlock v"
proof (intro conjI impI)
  show "u_ascii_airlock (Bytes b) = Inr (Bytes b)" by (rule ascii_airlock_Bytes)
  show "u_ascii_airlock (Str s) = Inr (Bytes s)" if "valid_utf8 s"
    using that by (simp add: ascii_airlock_Str)
  show "u_ascii_airlock (Str s) = Inl UnicodeEncodeError" if "\<not> valid_utf8 s"
    using that by (simp add: ascii_airlock_Str)
  show "isinstance_bytes r" if "u_ascii_airlock v = Inr r"
    using ascii_airlock_returns [OF that] by simp
  show "u_ascii_airlock r = Inr r" if "u_ascii_airlock v = Inr r"
    using ascii_airlock_returns [OF that] by (simp add: ascii_airlock_Bytes)
  show "(case u_ascii_airlock v of Inl e \<Rightarrow> Inl e | Inr r \<Rightarrow> u_ascii_airlock r) =
      u_ascii_airlock v"
  proof (cases "u_ascii_airlock v")
    case (Inl e)
    then show ?thesis by simp
  next
    case (Inr r)
    with ascii_airlock_returns [OF Inr] show ?thesis by (simp add: ascii_airlock_Bytes)
  qed
qed

theorem ascii_airlock_idempotent_witness:
  "valid_utf8 bed_path \<and> u_ascii_airlock (Str bed_path) = Inr (Bytes bed_path) \<and>
   valid_utf8 [CHR 0xC3, CHR 0xA9] \<and>
   u_ascii_airlock (Str [CHR 0xC3, CHR 0xA9]) = Inr (Bytes [CHR 0xC3, CHR 0xA9]) \<and>
   \<not> valid_utf8 [CHR 0xFF] \<and> u_ascii_airlock (Str [CHR 0xFF]) = Inl UnicodeEncodeError \<and>
   \<not> valid_utf8 [CHR 0xED, CHR 0xA0, CHR 0x80] \<and>
   u_ascii_airlock (Str bed_path) = Inr (Bytes bed_path) \<and> isinstance_bytes (Bytes bed_path) \<and>
   u_ascii_airlock (Bytes bed_path) = Inr (Bytes bed_path)"
proof -
  have v1: "valid_utf8 bed_path" by (rule valid_utf8_bed_path)
  have v2: "valid_utf8 [CHR 0xC3, CHR 0xA9]"
    by (simp add: utf8_sequence_def in_range_def)
  have v3: "\<not> valid_utf8 [CHR 0xFF]"
    by (simp add: utf8_sequence_def in_range_def)
  have v4: "\<not> valid_utf8 [CHR 0xED, CHR 0xA0, CHR 0x80]"
    by (simp add: utf8_sequence_def in_range_def)
  from ascii_airlock_idempotent [of bed_path bed_path "Str bed_path" "Bytes bed_path"] v1
  have a1: "u_ascii_airlock (Str bed_path) = Inr (Bytes bed_path)"
    and a2: "u_ascii_airlock (Bytes bed_path) = Inr (Bytes bed_path)"
    by blast+
  from ascii_airlock_idempotent [of bed_path "[CHR 0xC3, CHR 0xA9]"] v2
  have a3: "u_ascii_airlock (Str [CHR 0xC3, CHR 0xA9]) = Inr (Bytes [CHR 0xC3, CHR 0xA9])"
    by blast
  from ascii_airlock_idempotent [of bed_path "[CHR 0xFF]"] v3
  have a4: "u_ascii_airlock (Str [CHR 0xFF]) = Inl UnicodeEncodeError"
    by blast
  have i: "isinstance_bytes (Bytes bed_path)" by simp
  from v1 a1 v2 a3 v3 a4 v4 i a2 show ?thesis by (intro conjI)
qed

section \<open>Error messages\<close>











section \<open>The dimensions handed to the decoder\<close>

lemma major_order_values:
  "u_major_order fn w = (Inr major, w') \<Longrightarrow> major = ''snp'' \<or> major = ''individual''"
  by (auto simp: u_major_order_def py_open_def getitem_def Let_def
      split: option.splits if_splits sum.splits)

text \<open>
  C3.  After the airlock and the header check, \<^verbatim>\<open>_read_bed\<close> calls the decoder \<^verbatim>\<open>read_bed(fn, nrows, ncols)\<close>
  with the physical dimensions of the orientation: for snp-major, nrows is the number of
  markers and ncols the number of samples; for individual-major, nrows is the number of
  samples and ncols the number of markers.  This holds for every decoder and all counts.
\<close>

theorem read_bed_dimensions:
  assumes "u_ascii_airlock fn = Inr fn'"
    and "u_check_bed_header fn' w = (Inr (), w1)"
    and "u_major_order fn' w1 = (Inr major, w2)"
  shows "(major = ''snp'' \<or> major = ''individual'') \<and>
         (major = ''snp'' \<longrightarrow>
            u_read_bed rb fn nsamples nmarkers w = rb fn' nmarkers nsamples w2) \<and>
         (major = ''individual'' \<longrightarrow>
            u_read_bed rb fn nsamples nmarkers w = rb fn' nsamples nmarkers w2)"
  using assms major_order_values [OF assms(3)]
  by (auto simp: u_read_bed_def Let_def)

theorem read_bed_dimensions_witness:
  "u_ascii_airlock (Str bed_path) = Inr (Bytes bed_path) \<and>
   u_check_bed_header (Bytes bed_path) (world_of [108, 27, 1, 0xD8]) =
     (Inr (), (world_of [108, 27, 1, 0xD8])\<lparr>opened := [bed_path]\<rparr>) \<and>
   u_major_order (Bytes bed_path) ((world_of [108, 27, 1, 0xD8])\<lparr>opened := [bed_path]\<rparr>) =
     (Inr ''snp'', (world_of [108, 27, 1, 0xD8])\<lparr>opened := [bed_path, bed_path]\<rparr>) \<and>
   fst (u_read_bed (read_bed dims_decoder) (Str bed_path) 3 5 (world_of [108, 27, 1, 0xD8])) =
     Inr (5, 3) \<and>
   u_check_bed_header (Bytes bed_path) (world_of [108, 27, 0, 0xD8]) =
     (Inr (), (world_of [108, 27, 0, 0xD8])\<lparr>opened := [bed_path]\<rparr>) \<and>
   u_major_order (Bytes bed_path) ((world_of [108, 27, 0, 0xD8])\<lparr>opened := [bed_path]\<rparr>) =
     (Inr ''individual'', (world_of [108, 27, 0, 0xD8])\<lparr>opened := [bed_path, bed_path]\<rparr>) \<and>
   fst (u_read_bed (read_bed dims_decoder) (Str bed_path) 3 5 (world_of [108, 27, 0, 0xD8])) =
     Inr (3, 5)"
proof -
  have a: "u_ascii_airlock (Str bed_path) = Inr (Bytes bed_path)"
    by (simp add: ascii_airlock_Str valid_utf8_bed_path)
  have c1: "u_check_bed_header (Bytes bed_path) (world_of [108, 27, 1, 0xD8]) =
     (Inr (), (world_of [108, 27, 1, 0xD8])\<lparr>opened := [bed_path]\<rparr>)"
    by (simp add: u_check_bed_header_def py_open_def getitem_def u_ord_eq_iff world_of_def)
  have m1: "u_major_order (Bytes bed_path)
       ((world_of [108, 27, 1, 0xD8])\<lparr>opened := [bed_path]\<rparr>) =
     (Inr ''snp'', (world_of [108, 27, 1, 0xD8])\<lparr>opened := [bed_path, bed_path]\<rparr>)"
    by (simp add: u_major_order_def py_open_def getitem_def u_ord_eq_iff world_of_def)
  have c0: "u_check_bed_header (Bytes bed_path) (world_of [108, 27, 0, 0xD8]) =
     (Inr (), (world_of [108, 27, 0, 0xD8])\<lparr>opened := [bed_path]\<rparr>)"
    by (simp add: u_check_bed_header_def py_open_def getitem_def u_ord_eq_iff world_of_def)
  have m0: "u_major_order (Bytes bed_path)
       ((world_of [108, 27, 0, 0xD8])\<lparr>opened := [bed_path]\<rparr>) =
     (Inr ''individual'', (world_of [108, 27, 0, 0xD8])\<lparr>opened := [bed_path, bed_path]\<rparr>)"
    by (simp add: u_major_order_def py_open_def getitem_def u_ord_eq_iff world_of_def)
  have r1: "fst (u_read_bed (read_bed dims_decoder) (Str bed_path) 3 5 (world_of [108, 27, 1, 0xD8])) =
     Inr (5, 3)"
    using read_bed_dimensions [OF a c1 m1, of "read_bed dims_decoder" 3 5]
    by (simp add: read_bed_def py_open_def dims_decoder_def world_of_def)
  have r0: "fst (u_read_bed (read_bed dims_decoder) (Str bed_path) 3 5 (world_of [108, 27, 0, 0xD8])) =
     Inr (3, 5)"
    using read_bed_dimensions [OF a c0 m0, of "read_bed dims_decoder" 3 5]
    by (simp add: read_bed_def py_open_def dims_decoder_def world_of_def)
  from a c1 m1 r1 c0 m0 r0 show ?thesis by simp
qed

section \<open>The index column of the metadata tables\<close>

lemma mset_sort_index: "mset (sort_index key df) = mset df"
  by (simp add: sort_index_def)

lemma length_assign_i: "length (assign_i df) = length df"
  by (simp add: assign_i_def)

lemma nth_assign_i: "k < length df \<Longrightarrow> assign_i df ! k = \<lparr>cols = df ! k, i = k\<rparr>"
  by (simp add: assign_i_def)

lemma map_i_assign_i: "map i (assign_i df) = [0..<length df]"
  by (rule nth_equalityI) (simp_all add: length_assign_i nth_assign_i)

lemma map_cols_assign_i: "map cols (assign_i df) = df"
  by (rule nth_equalityI) (simp_all add: length_assign_i nth_assign_i)

lemma in_assign_i:
  assumes "x \<in> set (assign_i df)"
  shows "i x < length df \<and> cols x = df ! i x"
proof -
  from assms obtain k where "k < length (assign_i df)" and "assign_i df ! k = x"
    by (auto simp: in_set_conv_nth)
  then show ?thesis by (auto simp: length_assign_i nth_assign_i)
qed

lemma sorted_table:
  assumes "t = sort_index key (assign_i df)"
  shows "mset t = mset (assign_i df) \<and> mset (map i t) = mset [0..<length df] \<and>
         (\<forall>x\<in>set t. i x < length df \<and> cols x = df ! i x)"
proof -
  have m: "mset t = mset (assign_i df)" using assms by (simp add: mset_sort_index)
  then have "mset (map i t) = mset (map i (assign_i df))" by (metis mset_map)
  then have p: "mset (map i t) = mset [0..<length df]" by (simp add: map_i_assign_i)
  from m have "set t = set (assign_i df)" by (rule mset_eq_setD)
  with in_assign_i have "\<forall>x\<in>set t. i x < length df \<and> cols x = df ! i x" by blast
  with m p show ?thesis by simp
qed

text \<open>
  C6.  \<^verbatim>\<open>_read_bim\<close> and \<^verbatim>\<open>_read_fam\<close> assign the column \<open>i\<close> as the 0-based position of
  each record in file order, before sorting, and the sort only permutes the rows: the
  returned table has the rows of the table in file order with \<open>i\<close> assigned, its \<open>i\<close>
  values are a permutation of 0..count-1, and each row still carries the record of the
  file position \<open>i\<close>.
\<close>

theorem metadata_index_column:
  assumes "files w (chars_of fn_bim) = Some cb" and "parse_bim cb = Inr ms"
    and "files w (chars_of fn_fam) = Some cf" and "parse_fam cf = Inr ss"
  shows "\<exists>bim fam w1 w2.
           u_read_bim parse_bim fn_bim w = (Inr bim, w1) \<and>
           u_read_fam parse_fam fn_fam w = (Inr fam, w2) \<and>
           map i (assign_i ms) = [0..<length ms] \<and> map cols (assign_i ms) = ms \<and>
           map i (assign_i ss) = [0..<length ss] \<and> map cols (assign_i ss) = ss \<and>
           mset bim = mset (assign_i ms) \<and> mset fam = mset (assign_i ss) \<and>
           mset (map i bim) = mset [0..<length ms] \<and>
           mset (map i fam) = mset [0..<length ss] \<and>
           (\<forall>x\<in>set bim. i x < length ms \<and> cols x = ms ! i x) \<and>
           (\<forall>x\<in>set fam. i x < length ss \<and> cols x = ss ! i x)"
proof -
  have b: "u_read_bim parse_bim fn_bim w =
      (Inr (sort_index bim_index (assign_i ms)), w\<lparr>opened := opened w @ [chars_of fn_bim]\<rparr>)"
    using assms(1,2) by (simp add: u_read_bim_def read_csv_def py_open_def)
  have f: "u_read_fam parse_fam fn_fam w =
      (Inr (sort_index fam_index (assign_i ss)), w\<lparr>opened := opened w @ [chars_of fn_fam]\<rparr>)"
    using assms(3,4) by (simp add: u_read_fam_def read_csv_def py_open_def)
  note sb = sorted_table [OF refl, of bim_index ms]
  note sf = sorted_table [OF refl, of fam_index ss]
  show ?thesis
    apply (rule exI [of _ "sort_index bim_index (assign_i ms)"])
    apply (rule exI [of _ "sort_index fam_index (assign_i ss)"])
    apply (rule exI [of _ "w\<lparr>opened := opened w @ [chars_of fn_bim]\<rparr>"])
    apply (rule exI [of _ "w\<lparr>opened := opened w @ [chars_of fn_fam]\<rparr>"])
    apply (intro conjI)
               apply (rule b)
              apply (rule f)
             apply (rule map_i_assign_i)
            apply (rule map_cols_assign_i)
           apply (rule map_i_assign_i)
          apply (rule map_cols_assign_i)
         apply (rule sb [THEN conjunct1])
        apply (rule sf [THEN conjunct1])
       apply (rule sb [THEN conjunct2, THEN conjunct1])
      apply (rule sf [THEN conjunct2, THEN conjunct1])
     apply (rule sb [THEN conjunct2, THEN conjunct2])
    apply (rule sf [THEN conjunct2, THEN conjunct2])
    done
qed

theorem metadata_index_column_witness:
  "files plink_world (chars_of (Str ''data/chr1.bim'')) = Some bim_text \<and>
   example_parse_bim bim_text = Inr example_bim \<and>
   files plink_world (chars_of (Str ''data/chr1.fam'')) = Some fam_text \<and>
   example_parse_fam fam_text = Inr example_fam \<and>
   (\<exists>bim fam w1 w2.
      u_read_bim example_parse_bim (Str ''data/chr1.bim'') plink_world = (Inr bim, w1) \<and>
      u_read_fam example_parse_fam (Str ''data/chr1.fam'') plink_world = (Inr fam, w2) \<and>
      mset (map i bim) = mset [0..<3] \<and> mset (map i fam) = mset [0..<2]) \<and>
   map_sum id (map i) (fst (u_read_bim example_parse_bim (Str ''data/chr1.bim'') plink_world)) =
     Inr [2, 1, 0] \<and>
   map_sum id (map i) (fst (u_read_fam example_parse_fam (Str ''data/chr1.fam'') plink_world)) =
     Inr [1, 0]"
proof -
  have h1: "files plink_world (chars_of (Str ''data/chr1.bim'')) = Some bim_text"
    by (simp add: plink_world_def)
  have h2: "example_parse_bim bim_text = Inr example_bim"
    by (simp add: example_parse_bim_def)
  have h3: "files plink_world (chars_of (Str ''data/chr1.fam'')) = Some fam_text"
    by (simp add: plink_world_def)
  have h4: "example_parse_fam fam_text = Inr example_fam"
    by (simp add: example_parse_fam_def)
  have l: "length example_bim = 3" "length example_fam = 2"
    by (simp_all add: example_bim_def example_fam_def)
  have e: "\<exists>bim fam w1 w2.
      u_read_bim example_parse_bim (Str ''data/chr1.bim'') plink_world = (Inr bim, w1) \<and>
      u_read_fam example_parse_fam (Str ''data/chr1.fam'') plink_world = (Inr fam, w2) \<and>
      mset (map i bim) = mset [0..<3] \<and> mset (map i fam) = mset [0..<2]"
    using metadata_index_column [where w = plink_world and parse_bim = example_parse_bim
        and parse_fam = example_parse_fam and cb = bim_text and cf = fam_text
        and ms = example_bim and ss = example_fam, OF h1 h2 h3 h4]
    unfolding l by blast
  have vb: "map_sum id (map i)
      (fst (u_read_bim example_parse_bim (Str ''data/chr1.bim'') plink_world)) = Inr [2, 1, 0]"
    by code_simp
  have vf: "map_sum id (map i)
      (fst (u_read_fam example_parse_fam (Str ''data/chr1.fam'') plink_world)) = Inr [1, 0]"
    by code_simp
  from h1 h2 h3 h4 e vb vf show ?thesis by (intro conjI)
qed

section \<open>The diagnostic stream\<close>

text \<open>The readers neither read nor write the diagnostic stream.\<close>

lemma py_open_stdout:
  "py_open fn (w\<lparr>stdout := s\<rparr>) = (fst (py_open fn w), (snd (py_open fn w))\<lparr>stdout := s\<rparr>)"
  by (simp add: py_open_def Let_def split: option.splits)

lemma read_csv_stdout:
  "read_csv parse fn (w\<lparr>stdout := s\<rparr>) =
     (fst (read_csv parse fn w), (snd (read_csv parse fn w))\<lparr>stdout := s\<rparr>)"
  by (simp add: read_csv_def py_open_stdout split: prod.splits sum.splits)

lemma read_bim_stdout:
  "u_read_bim parse fn (w\<lparr>stdout := s\<rparr>) =
     (fst (u_read_bim parse fn w), (snd (u_read_bim parse fn w))\<lparr>stdout := s\<rparr>)"
  by (simp add: u_read_bim_def read_csv_stdout split: prod.splits sum.splits)

lemma read_fam_stdout:
  "u_read_fam parse fn (w\<lparr>stdout := s\<rparr>) =
     (fst (u_read_fam parse fn w), (snd (u_read_fam parse fn w))\<lparr>stdout := s\<rparr>)"
  by (simp add: u_read_fam_def read_csv_stdout split: prod.splits sum.splits)

lemma check_bed_header_stdout:
  "u_check_bed_header fn (w\<lparr>stdout := s\<rparr>) =
     (fst (u_check_bed_header fn w), (snd (u_check_bed_header fn w))\<lparr>stdout := s\<rparr>)"
  by (simp add: u_check_bed_header_def py_open_stdout split: prod.splits sum.splits)

lemma major_order_stdout:
  "u_major_order fn (w\<lparr>stdout := s\<rparr>) =
     (fst (u_major_order fn w), (snd (u_major_order fn w))\<lparr>stdout := s\<rparr>)"
  by (simp add: u_major_order_def py_open_stdout split: prod.splits sum.splits)

lemma read_bed_stdout:
  "read_bed decoder fn nrows ncols (w\<lparr>stdout := s\<rparr>) =
     (fst (read_bed decoder fn nrows ncols w),
      (snd (read_bed decoder fn nrows ncols w))\<lparr>stdout := s\<rparr>)"
  by (simp add: read_bed_def py_open_stdout split: prod.splits sum.splits)

lemma u_read_bed_stdout:
  "u_read_bed (read_bed decoder) fn ns nm (w\<lparr>stdout := s\<rparr>) =
     (fst (u_read_bed (read_bed decoder) fn ns nm w),
      (snd (u_read_bed (read_bed decoder) fn ns nm w))\<lparr>stdout := s\<rparr>)"
proof (cases "u_ascii_airlock fn")
  case (Inl e)
  then show ?thesis by (simp add: u_read_bed_def)
next
  case (Inr fn')
  note a = this
  obtain r1 w1 where c: "u_check_bed_header fn' w = (r1, w1)"
    by (cases "u_check_bed_header fn' w")
  then have c': "u_check_bed_header fn' (w\<lparr>stdout := s\<rparr>) = (r1, w1\<lparr>stdout := s\<rparr>)"
    by (simp add: check_bed_header_stdout)
  show ?thesis
  proof (cases r1)
    case (Inl e)
    with a c c' show ?thesis by (simp add: u_read_bed_def Let_def)
  next
    case (Inr u)
    obtain r2 w2 where m: "u_major_order fn' w1 = (r2, w2)"
      by (cases "u_major_order fn' w1")
    then have m': "u_major_order fn' (w1\<lparr>stdout := s\<rparr>) = (r2, w2\<lparr>stdout := s\<rparr>)"
      by (simp add: major_order_stdout)
    show ?thesis
    proof (cases r2)
      case (Inl e)
      with a c c' m m' Inr show ?thesis by (simp add: u_read_bed_def Let_def)
    next
      case (Inr major)
      with a c c' m m' \<open>r1 = Inr u\<close> show ?thesis
        by (simp add: u_read_bed_def Let_def read_bed_stdout)
    qed
  qed
qed

lemma follows_TimeIt:
  assumes "\<And>w s. body (w\<lparr>stdout := s\<rparr>) = (fst (body w), (snd (body w))\<lparr>stdout := s\<rparr>)"
  shows "follows (TimeIt desc disable body) (TimeIt desc (\<not> False) body)"
  unfolding follows_def
proof (intro allI)
  fix w s
  have q: "TimeIt desc (\<not> False) body w = body w"
    by (simp add: TimeIt_def split: prod.splits)
  obtain r w2 where b: "body w = (r, w2)" by (cases "body w")
  show "\<exists>s'. TimeIt desc disable body (w\<lparr>stdout := s\<rparr>) =
          (fst (TimeIt desc (\<not> False) body w),
           (snd (TimeIt desc (\<not> False) body w))\<lparr>stdout := s'\<rparr>)"
    unfolding q
    by (cases disable) (auto simp: TimeIt_def assms b)
qed

lemma follows_lift: "follows (lift r) (lift r)"
  by (auto simp: follows_def lift_def)

lemma follows_return: "follows (return x) (return x)"
  by (auto simp: follows_def return_def)

lemma follows_bind:
  assumes "follows m1 m2" and "\<And>x. follows (f1 x) (f2 x)"
  shows "follows (io_bind m1 f1) (io_bind m2 f2)"
  unfolding follows_def
proof (intro allI)
  fix w s
  from assms(1) obtain s1 where
    m: "m1 (w\<lparr>stdout := s\<rparr>) = (fst (m2 w), (snd (m2 w))\<lparr>stdout := s1\<rparr>)"
    unfolding follows_def by blast
  obtain r w2 where b: "m2 w = (r, w2)" by (cases "m2 w")
  show "\<exists>s'. io_bind m1 f1 (w\<lparr>stdout := s\<rparr>) =
          (fst (io_bind m2 f2 w), (snd (io_bind m2 f2 w))\<lparr>stdout := s'\<rparr>)"
  proof (cases r)
    case (Inl e)
    with m b show ?thesis by (auto simp: io_bind_def)
  next
    case (Inr x)
    from assms(2) [of x] obtain s2 where
      "f1 x (w2\<lparr>stdout := s1\<rparr>) = (fst (f2 x w2), (snd (f2 x w2))\<lparr>stdout := s2\<rparr>)"
      unfolding follows_def by blast
    with m b Inr show ?thesis by (auto simp: io_bind_def)
  qed
qed

lemma read_plink_follows:
  "follows (read_plink pb pf dec fp v) (read_plink pb pf dec fp False)"
  unfolding read_plink_def Let_def
  by (intro follows_bind follows_lift follows_return follows_TimeIt
      read_bim_stdout read_fam_stdout u_read_bed_stdout)

lemma read_plink_silent:
  "\<exists>s. read_plink pb pf dec fp v w =
     (fst (read_plink pb pf dec fp False w),
      (snd (read_plink pb pf dec fp False w))\<lparr>stdout := s\<rparr>)"
proof -
  have "follows (read_plink pb pf dec fp v) (read_plink pb pf dec fp False)"
    by (rule read_plink_follows)
  then obtain s' where "read_plink pb pf dec fp v (w\<lparr>stdout := stdout w\<rparr>) =
     (fst (read_plink pb pf dec fp False w),
      (snd (read_plink pb pf dec fp False w))\<lparr>stdout := s'\<rparr>)"
    unfolding follows_def by blast
  then show ?thesis by auto
qed

text \<open>
  C8.  For fixed input files, the triple that \<^verbatim>\<open>read_plink\<close> returns (or the error it
  raises) is the same for \<^verbatim>\<open>verbose=True\<close> and \<^verbatim>\<open>verbose=False\<close>, and so are the files and
  the paths opened: the flag only decides what is written to the diagnostic stream.
\<close>

theorem read_plink_verbose_noninterference:
  "fst (read_plink pb pf dec fp True w) = fst (read_plink pb pf dec fp False w) \<and>
   files (snd (read_plink pb pf dec fp True w)) =
     files (snd (read_plink pb pf dec fp False w)) \<and>
   opened (snd (read_plink pb pf dec fp True w)) =
     opened (snd (read_plink pb pf dec fp False w))"
proof -
  from read_plink_silent [of pb pf dec fp True w] obtain s where
    "read_plink pb pf dec fp True w =
     (fst (read_plink pb pf dec fp False w),
      (snd (read_plink pb pf dec fp False w))\<lparr>stdout := s\<rparr>)" ..
  then show ?thesis by simp
qed

section \<open>The paths read\<close>

lemma chars_of_ascii_airlock: "u_ascii_airlock fn = Inr fn' \<Longrightarrow> chars_of fn' = chars_of fn"
  using ascii_airlock_returns [of fn fn'] by simp

lemma snd_py_open: "snd (py_open fn w) = w\<lparr>opened := opened w @ [chars_of fn]\<rparr>"
  by (simp add: py_open_def Let_def split: option.splits)

lemma snd_read_csv: "snd (read_csv parse fn w) = w\<lparr>opened := opened w @ [chars_of fn]\<rparr>"
  using snd_py_open [of fn w]
  by (cases "py_open fn w") (auto simp: read_csv_def split: sum.splits)

lemma snd_read_bim: "snd (u_read_bim parse fn w) = w\<lparr>opened := opened w @ [chars_of fn]\<rparr>"
  using snd_read_csv [of parse fn w]
  by (cases "read_csv parse fn w") (auto simp: u_read_bim_def split: sum.splits)

lemma snd_read_fam: "snd (u_read_fam parse fn w) = w\<lparr>opened := opened w @ [chars_of fn]\<rparr>"
  using snd_read_csv [of parse fn w]
  by (cases "read_csv parse fn w") (auto simp: u_read_fam_def split: sum.splits)

lemma snd_check_bed_header:
  "snd (u_check_bed_header fn w) = w\<lparr>opened := opened w @ [chars_of fn]\<rparr>"
  using snd_py_open [of fn w]
  by (cases "py_open fn w") (auto simp: u_check_bed_header_def split: sum.splits)

lemma snd_major_order:
  "snd (u_major_order fn w) = w\<lparr>opened := opened w @ [chars_of fn]\<rparr>"
  using snd_py_open [of fn w]
  by (cases "py_open fn w") (auto simp: u_major_order_def split: sum.splits)

lemma snd_read_bed:
  "snd (read_bed decoder fn nrows ncols w) = w\<lparr>opened := opened w @ [chars_of fn]\<rparr>"
  using snd_py_open [of fn w]
  by (cases "py_open fn w") (auto simp: read_bed_def split: sum.splits)

lemma opened_u_read_bed:
  "\<exists>k. opened (snd (u_read_bed (read_bed decoder) fn ns nm w)) =
          opened w @ replicate k (chars_of fn) \<and> k \<le> 3 \<and>
        (\<not> isl (fst (u_read_bed (read_bed decoder) fn ns nm w)) \<longrightarrow> k = 3)"
proof (cases "u_ascii_airlock fn")
  case (Inl e)
  then have "opened (snd (u_read_bed (read_bed decoder) fn ns nm w)) =
          opened w @ replicate 0 (chars_of fn)"
    and "isl (fst (u_read_bed (read_bed decoder) fn ns nm w))"
    by (simp_all add: u_read_bed_def)
  then show ?thesis by (intro exI [of _ 0]) simp
next
  case (Inr fn')
  note a = this
  have ch: "chars_of fn' = chars_of fn" by (rule chars_of_ascii_airlock [OF a])
  obtain r1 w1 where c: "u_check_bed_header fn' w = (r1, w1)"
    by (cases "u_check_bed_header fn' w")
  with snd_check_bed_header [of fn' w]
  have w1: "w1 = w\<lparr>opened := opened w @ [chars_of fn]\<rparr>"
    by (simp add: ch)
  show ?thesis
  proof (cases r1)
    case (Inl e)
    with a c w1 have "opened (snd (u_read_bed (read_bed decoder) fn ns nm w)) =
          opened w @ replicate 1 (chars_of fn)"
      and "isl (fst (u_read_bed (read_bed decoder) fn ns nm w))"
      by (simp_all add: u_read_bed_def Let_def)
    then show ?thesis by (intro exI [of _ 1]) simp
  next
    case (Inr u)
    obtain r2 w2 where m: "u_major_order fn' w1 = (r2, w2)"
      by (cases "u_major_order fn' w1")
    with snd_major_order [of fn' w1] w1
    have w2: "w2 = w\<lparr>opened := opened w @ [chars_of fn, chars_of fn]\<rparr>"
      by (simp add: ch)
    show ?thesis
    proof (cases r2)
      case (Inl e)
      with a c m w2 \<open>r1 = Inr u\<close>
      have "opened (snd (u_read_bed (read_bed decoder) fn ns nm w)) =
          opened w @ replicate 2 (chars_of fn)"
        and "isl (fst (u_read_bed (read_bed decoder) fn ns nm w))"
        by (simp_all add: u_read_bed_def Let_def numeral_2_eq_2)
      then show ?thesis by (intro exI [of _ 2]) simp
    next
      case (Inr major)
      with a c m w2 \<open>r1 = Inr u\<close>
      have "opened (snd (u_read_bed (read_bed decoder) fn ns nm w)) =
          opened w @ replicate 3 (chars_of fn)"
        by (simp add: u_read_bed_def Let_def snd_read_bed ch numeral_3_eq_3)
      then show ?thesis by (intro exI [of _ 3]) simp
    qed
  qed
qed

lemma read_plink_False:
  "read_plink pb pf dec (Str p) False w =
     (case u_read_bim pb (Str (p @ ''.bim'')) w of
        (Inl e, w1) \<Rightarrow> (Inl e, w1)
      | (Inr bim, w1) \<Rightarrow>
          (case u_read_fam pf (Str (p @ ''.fam'')) w1 of
             (Inl e, w2) \<Rightarrow> (Inl e, w2)
           | (Inr fam, w2) \<Rightarrow>
               (case u_read_bed (read_bed dec) (Str (p @ ''.bed'')) (length fam) (length bim) w2 of
                  (Inl e, w3) \<Rightarrow> (Inl e, w3)
                | (Inr bed, w3) \<Rightarrow> (Inr (bim, fam, bed), w3))))"
  by (simp add: read_plink_def Let_def io_bind_def lift_def dict_get_def return_def TimeIt_def
      split: prod.splits sum.splits)

lemma read_plink_False_paths:
  "\<exists>new. opened (snd (read_plink pb pf dec (Str p) False w)) = opened w @ new \<and>
      prefix new [p @ ''.bim'', p @ ''.fam'', p @ ''.bed'', p @ ''.bed'', p @ ''.bed''] \<and>
      (\<not> isl (fst (read_plink pb pf dec (Str p) False w)) \<longrightarrow>
         new = [p @ ''.bim'', p @ ''.fam'', p @ ''.bed'', p @ ''.bed'', p @ ''.bed''])"
proof -
  let ?R = "read_plink pb pf dec (Str p) False w"
  let ?full = "[p @ ''.bim'', p @ ''.fam'', p @ ''.bed'', p @ ''.bed'', p @ ''.bed'']"
  obtain rb wb where b: "u_read_bim pb (Str (p @ ''.bim'')) w = (rb, wb)"
    by (cases "u_read_bim pb (Str (p @ ''.bim'')) w")
  with snd_read_bim [of pb "Str (p @ ''.bim'')" w]
  have wb: "wb = w\<lparr>opened := opened w @ [p @ ''.bim'']\<rparr>" by simp
  show ?thesis
  proof (cases rb)
    case (Inl e)
    with b wb have "opened (snd ?R) = opened w @ [p @ ''.bim'']" and "isl (fst ?R)"
      by (simp_all add: read_plink_False)
    then show ?thesis by (intro exI [of _ "[p @ ''.bim'']"]) simp
  next
    case (Inr bim)
    note rb = this
    obtain rf wf where f: "u_read_fam pf (Str (p @ ''.fam'')) wb = (rf, wf)"
      by (cases "u_read_fam pf (Str (p @ ''.fam'')) wb")
    with snd_read_fam [of pf "Str (p @ ''.fam'')" wb] wb
    have wf: "wf = w\<lparr>opened := opened w @ [p @ ''.bim'', p @ ''.fam'']\<rparr>" by simp
    show ?thesis
    proof (cases rf)
      case (Inl e)
      with b f wf rb have "opened (snd ?R) = opened w @ [p @ ''.bim'', p @ ''.fam'']"
        and "isl (fst ?R)"
        by (simp_all add: read_plink_False)
      then show ?thesis by (intro exI [of _ "[p @ ''.bim'', p @ ''.fam'']"]) simp
    next
      case (Inr fam)
      note rf = this
      let ?B = "u_read_bed (read_bed dec) (Str (p @ ''.bed'')) (length fam) (length bim) wf"
      from opened_u_read_bed [of dec "Str (p @ ''.bed'')" "length fam" "length bim" wf]
      obtain k where k: "opened (snd ?B) = opened wf @ replicate k (p @ ''.bed'')"
        "k \<le> 3" "\<not> isl (fst ?B) \<longrightarrow> k = 3"
        by auto
      have R: "opened (snd ?R) = opened (snd ?B)" "isl (fst ?R) = isl (fst ?B)"
        using b f rb rf by (simp_all add: read_plink_False split: prod.splits sum.splits)
      from k(2) have "k = 0 \<or> k = 1 \<or> k = 2 \<or> k = 3" by arith
      then have p: "prefix ([p @ ''.bim'', p @ ''.fam''] @ replicate k (p @ ''.bed'')) ?full"
        by (auto simp: numeral_2_eq_2 numeral_3_eq_3)
      have "\<not> isl (fst ?R) \<longrightarrow> [p @ ''.bim'', p @ ''.fam''] @ replicate k (p @ ''.bed'') = ?full"
        using k(3) R(2) by (auto simp: numeral_3_eq_3)
      with p R(1) k(1) wf show ?thesis
        by (intro exI [of _ "[p @ ''.bim'', p @ ''.fam''] @ replicate k (p @ ''.bed'')"]) simp
    qed
  qed
qed

text \<open>
  C7.  For every prefix string, the paths that \<^verbatim>\<open>read_plink\<close> opens are the prefix with
  \<^verbatim>\<open>.bim\<close>, \<^verbatim>\<open>.fam\<close> and \<^verbatim>\<open>.bed\<close> appended, in this order, and no other path: the paths
  opened by a run are an initial part of (.bim, .fam, .bed, .bed, .bed), and a run that
  returns has opened all of it, that is exactly the three paths.
\<close>

theorem read_plink_paths:
  "\<exists>new. opened (snd (read_plink pb pf dec (Str p) v w)) = opened w @ new \<and>
      prefix new [p @ ''.bim'', p @ ''.fam'', p @ ''.bed'', p @ ''.bed'', p @ ''.bed''] \<and>
      set new \<subseteq> {p @ ''.bed'', p @ ''.bim'', p @ ''.fam''} \<and>
      (\<not> isl (fst (read_plink pb pf dec (Str p) v w)) \<longrightarrow>
         new = [p @ ''.bim'', p @ ''.fam'', p @ ''.bed'', p @ ''.bed'', p @ ''.bed''] \<and>
         set new = {p @ ''.bed'', p @ ''.bim'', p @ ''.fam''})"
proof -
  let ?full = "[p @ ''.bim'', p @ ''.fam'', p @ ''.bed'', p @ ''.bed'', p @ ''.bed'']"
  from read_plink_silent [of pb pf dec "Str p" v w]
  have e: "opened (snd (read_plink pb pf dec (Str p) v w)) =
             opened (snd (read_plink pb pf dec (Str p) False w))"
    "fst (read_plink pb pf dec (Str p) v w) = fst (read_plink pb pf dec (Str p) False w)"
    by auto
  from read_plink_False_paths [of pb pf dec p w] obtain new where
    n: "opened (snd (read_plink pb pf dec (Str p) False w)) = opened w @ new"
      "prefix new ?full"
      "\<not> isl (fst (read_plink pb pf dec (Str p) False w)) \<longrightarrow> new = ?full"
    by blast
  from n(2) have "set new \<subseteq> set ?full" by (rule set_mono_prefix)
  then have s: "set new \<subseteq> {p @ ''.bed'', p @ ''.bim'', p @ ''.fam''}" by auto
  have "new = ?full \<longrightarrow> set new = {p @ ''.bed'', p @ ''.bim'', p @ ''.fam''}" by auto
  with e n s show ?thesis
    by (intro exI [of _ new]) simp
qed

theorem read_plink_paths_witness:
  "\<not> isl (fst (read_plink example_parse_bim example_parse_fam example_decoder
             (Str ''data/chr1'') True plink_world)) \<and>
   opened (snd (read_plink example_parse_bim example_parse_fam example_decoder
             (Str ''data/chr1'') True plink_world)) =
     [''data/chr1.bim'', ''data/chr1.fam'', ''data/chr1.bed'', ''data/chr1.bed'',
      ''data/chr1.bed'']"
proof -
  have h: "\<not> isl (fst (read_plink example_parse_bim example_parse_fam example_decoder
             (Str ''data/chr1'') True plink_world))"
    by code_simp
  have o: "opened plink_world = []" by (simp add: plink_world_def)
  from read_plink_paths [of example_parse_bim example_parse_fam example_decoder
      "''data/chr1''" True plink_world] h o
  show ?thesis by auto
qed

theorem read_plink_verbose_noninterference_witness:
  "fst (read_plink example_parse_bim example_parse_fam example_decoder
          (Str ''data/chr1'') True plink_world) =
   fst (read_plink example_parse_bim example_parse_fam example_decoder
          (Str ''data/chr1'') False plink_world) \<and>
   map_sum id (snd \<circ> snd)
     (fst (read_plink example_parse_bim example_parse_fam example_decoder
             (Str ''data/chr1'') False plink_world)) = Inr [[2, 1], [2, 0], [0, 3]] \<and>
   stdout (snd (read_plink example_parse_bim example_parse_fam example_decoder
                  (Str ''data/chr1'') False plink_world)) = [] \<and>
   stdout (snd (read_plink example_parse_bim example_parse_fam example_decoder
                  (Str ''data/chr1'') True plink_world)) =
     [''Reading data/chr1.bim...'', '' done.'', ''Reading data/chr1.fam...'', '' done.'',
      ''Reading data/chr1.bed...'', '' done.'']"
proof -
  have g: "map_sum id (snd \<circ> snd)
     (fst (read_plink example_parse_bim example_parse_fam example_decoder
             (Str ''data/chr1'') False plink_world)) = Inr [[2, 1], [2, 0], [0, 3]]"
    by code_simp
  have s0: "stdout (snd (read_plink example_parse_bim example_parse_fam example_decoder
                  (Str ''data/chr1'') False plink_world)) = []"
    by code_simp
  have s1: "stdout (snd (read_plink example_parse_bim example_parse_fam example_decoder
                  (Str ''data/chr1'') True plink_world)) =
     [''Reading data/chr1.bim...'', '' done.'', ''Reading data/chr1.fam...'', '' done.'',
      ''Reading data/chr1.bed...'', '' done.'']"
    by code_simp
  from read_plink_verbose_noninterference [of example_parse_bim example_parse_fam
      example_decoder "Str ''data/chr1''" plink_world] g s0 s1
  show ?thesis by blast
qed

section \<open>The round trip of the codec\<close>

lemma bit_three: "bit (3::byte) n \<longleftrightarrow> n < 2"
proof -
  have m: "(3::byte) = mask 2" by (simp add: mask_eq_exp_minus_1)
  have "bit (mask 2 :: byte) n \<longleftrightarrow> n < 2"
    unfolding bit_mask_iff by auto
  then show ?thesis unfolding m .
qed

lemma bit_code_at: "bit (code_at b k) n \<longleftrightarrow> n < 2 \<and> bit b (2 * k + n)"
  unfolding code_at_def bit_and_iff bit_drop_bit_eq bit_three by (auto simp: add.commute)

lemma code_at_AND3: "code_at b k AND 3 = code_at b k"
  by (simp add: code_at_def)

lemma two_bit_high: "(c::byte) AND 3 = c \<Longrightarrow> bit c n \<Longrightarrow> n < 2"
proof -
  assume a: "c AND 3 = c" and b: "bit c n"
  from b a have "bit (c AND 3) n" by simp
  then show "n < 2" unfolding bit_and_iff bit_three by simp
qed

lemma two_bit_cases:
  assumes "(c::byte) AND 3 = c"
  shows "c = 0 \<or> c = 1 \<or> c = 2 \<or> c = 3"
proof -
  have "c AND 3 \<le> 3" by (rule word_and_le1)
  with assms have "c \<le> 3" by simp
  then have "unat c \<le> 3" by (simp add: word_le_nat_alt)
  then consider "unat c = 0" | "unat c = 1" | "unat c = 2" | "unat c = 3" by linarith
  then show ?thesis
  proof cases
    case 1 then show ?thesis by (simp add: unat_eq_0)
  next
    case 2 then have "of_nat (unat c) = (of_nat 1 :: byte)" by simp
    then have "c = 1" by simp then show ?thesis by simp
  next
    case 3 then have "of_nat (unat c) = (of_nat 2 :: byte)" by simp
    then have "c = 2" by simp then show ?thesis by simp
  next
    case 4 then have "of_nat (unat c) = (of_nat 3 :: byte)" by simp
    then have "c = 3" by simp then show ?thesis by simp
  qed
qed

lemma code_of_genotype_of_code:
  assumes "c AND 3 = c"
  shows "code_of_genotype (genotype_of_code c) = c"
  using two_bit_cases [OF assms]
  by (elim disjE) (simp_all add: code_of_genotype_def genotype_of_code_def)

lemma code_of_genotype_AND3: "code_of_genotype g AND 3 = code_of_genotype g"
  by (simp add: code_of_genotype_def)

lemma code_at_pack_0:
  assumes "(c::byte) AND 3 = c"
  shows "code_at (c OR push_bit 2 r) 0 = c"
proof (rule bit_word_eqI)
  fix n assume "n < LENGTH(8)"
  have "bit c n \<Longrightarrow> n < 2" by (rule two_bit_high [OF assms])
  then show "bit (code_at (c OR push_bit 2 r) 0) n = bit c n"
    unfolding bit_code_at bit_or_iff bit_push_bit_iff by auto
qed

lemma code_at_pack_Suc:
  assumes "(c::byte) AND 3 = c" and "k < 3"
  shows "code_at (c OR push_bit 2 r) (Suc k) = code_at r k"
proof (rule bit_word_eqI)
  fix n assume "n < LENGTH(8)"
  have nc: "\<not> bit c (2 * Suc k + n)"
    using two_bit_high [OF assms(1), of "2 * Suc k + n"] by auto
  have "n < 2 \<Longrightarrow> 2 * Suc k + n < 8" using assms(2) by simp
  then have pb: "n < 2 \<Longrightarrow> possible_bit TYPE(byte) (2 * Suc k + n)" by simp
  have e: "2 * Suc k + n - 2 = 2 * k + n" by simp
  show "bit (code_at (c OR push_bit 2 r) (Suc k)) n = bit (code_at r k) n"
    unfolding bit_code_at bit_or_iff bit_push_bit_iff e using nc pb by auto
qed

lemma code_at_pack_codes:
  "length cs \<le> 4 \<Longrightarrow> k < length cs \<Longrightarrow> \<forall>c\<in>set cs. c AND 3 = c \<Longrightarrow>
   code_at (pack_codes cs) k = cs ! k"
proof (induction cs arbitrary: k)
  case Nil
  then show ?case by simp
next
  case (Cons c cs)
  show ?case
  proof (cases k)
    case 0
    with Cons.prems show ?thesis by (simp add: code_at_pack_0)
  next
    case (Suc j)
    with Cons.prems have j: "j < 3" "j < length cs" "length cs \<le> 4" by simp_all
    from Cons.prems have c: "c AND 3 = c" and cs: "\<forall>c\<in>set cs. c AND 3 = c" by simp_all
    have "code_at (pack_codes (c # cs)) (Suc j) = code_at (pack_codes cs) j"
      using code_at_pack_Suc [OF c j(1)] by simp
    also have "\<dots> = cs ! j" by (rule Cons.IH [OF j(3) j(2) cs])
    finally show ?thesis using Suc by simp
  qed
qed

lemma length_unpack_byte: "length (unpack_byte b) = 4"
  by (simp add: unpack_byte_def)

lemma nth_unpack_byte: "k < 4 \<Longrightarrow> unpack_byte b ! k = genotype_of_code (code_at b k)"
  by (simp add: unpack_byte_def)

lemma length_concat_unpack: "length (concat (map unpack_byte bs)) = 4 * length bs"
  by (induction bs) (simp_all add: length_unpack_byte)

lemma nth_concat_unpack:
  "c < 4 * length bs \<Longrightarrow>
   concat (map unpack_byte bs) ! c = genotype_of_code (code_at (bs ! (c div 4)) (c mod 4))"
proof (induction bs arbitrary: c)
  case Nil
  then show ?case by simp
next
  case (Cons b bs)
  show ?case
  proof (cases "c < 4")
    case True
    then show ?thesis by (simp add: nth_append length_unpack_byte nth_unpack_byte)
  next
    case False
    then have c: "c = (c - 4) + 4" by simp
    from False Cons.prems have l: "c - 4 < 4 * length bs" by simp
    have d: "c div 4 = Suc ((c - 4) div 4)" "c mod 4 = (c - 4) mod 4"
      using False by (simp_all add: le_div_geq le_mod_geq)
    from False have "concat (map unpack_byte (b # bs)) ! c = concat (map unpack_byte bs) ! (c - 4)"
      by (simp add: nth_append length_unpack_byte)
    also have "\<dots> = genotype_of_code (code_at (bs ! ((c - 4) div 4)) ((c - 4) mod 4))"
      by (rule Cons.IH [OF l])
    finally show ?thesis by (simp add: d)
  qed
qed

lemma bytes_per_row_bound: "ncols \<le> 4 * bytes_per_row ncols"
  by (simp add: bytes_per_row_def)

lemma length_decode_row:
  "length bs = bytes_per_row ncols \<Longrightarrow> length (decode_row ncols bs) = ncols"
  using bytes_per_row_bound [of ncols] by (simp add: decode_row_def length_concat_unpack)

lemma nth_decode_row:
  assumes "length bs = bytes_per_row ncols" and "c < ncols"
  shows "decode_row ncols bs ! c = genotype_of_code (code_at (bs ! (c div 4)) (c mod 4))"
proof -
  from assms bytes_per_row_bound [of ncols] have "c < 4 * length bs" by simp
  then show ?thesis using assms(2) by (simp add: decode_row_def nth_concat_unpack)
qed

lemma length_encode_row: "length (encode_row row) = bytes_per_row (length row)"
  by (simp add: encode_row_def)

lemma encode_decode_row:
  assumes l: "length bs = bytes_per_row ncols" and j: "j < bytes_per_row ncols"
    and k: "k < 4" and c: "4 * j + k < ncols"
  shows "code_at (encode_row (decode_row ncols bs) ! j) k = code_at (bs ! j) k"
proof -
  let ?row = "decode_row ncols bs"
  let ?cs = "map code_of_genotype (take 4 (drop (4 * j) ?row))"
  have lr: "length ?row = ncols" by (rule length_decode_row [OF l])
  have e: "encode_row ?row ! j = pack_codes ?cs"
    using j by (simp add: encode_row_def lr)
  have l4: "length ?cs \<le> 4" by simp
  have kl: "k < length ?cs" using k c by (simp add: lr)
  have a3: "\<forall>x\<in>set ?cs. x AND 3 = x" by (auto simp: code_of_genotype_AND3)
  have "code_at (pack_codes ?cs) k = ?cs ! k"
    by (rule code_at_pack_codes [OF l4 kl a3])
  also have "\<dots> = code_of_genotype (?row ! (4 * j + k))"
    using k c by (simp add: lr)
  also have "?row ! (4 * j + k) =
      genotype_of_code (code_at (bs ! ((4 * j + k) div 4)) ((4 * j + k) mod 4))"
    by (rule nth_decode_row [OF l c])
  also have "(4 * j + k) div 4 = j" using k by simp
  also have "(4 * j + k) mod 4 = k" using k by simp
  finally show ?thesis
    by (simp add: e code_of_genotype_of_code code_at_AND3)
qed

lemma length_concat_uniform:
  "\<forall>x\<in>set xss. length x = n \<Longrightarrow> length (concat xss) = length xss * n"
  by (induction xss) simp_all

lemma nth_concat_uniform:
  "\<forall>x\<in>set xss. length x = n \<Longrightarrow> r < length xss \<Longrightarrow> j < n \<Longrightarrow>
   concat xss ! (r * n + j) = xss ! r ! j"
proof (induction xss arbitrary: r)
  case Nil
  then show ?case by simp
next
  case (Cons xs xss)
  show ?case
  proof (cases r)
    case 0
    with Cons.prems show ?thesis by (simp add: nth_append)
  next
    case (Suc q)
    with Cons.prems have q: "q < length xss" and u: "\<forall>x\<in>set xss. length x = n"
      and lx: "length xs = n" by simp_all
    have "concat (xs # xss) ! (Suc q * n + j) = concat xss ! (q * n + j)"
      by (simp add: nth_append lx)
    also have "\<dots> = xss ! q ! j" by (rule Cons.IH [OF u q Cons.prems(3)])
    finally show ?thesis using Suc by simp
  qed
qed

lemma decode_rows_roundtrip:
  assumes v: "length payload = bytes_per_row ncols * nrows"
    and d: "decode_rows payload nrows ncols = Inr m"
  shows "length m = nrows" and "\<forall>row\<in>set m. length row = ncols"
    and "length (encode_rows m) = length payload"
    and "\<forall>j<length payload. \<forall>k<4. 4 * (j mod bytes_per_row ncols) + k < ncols \<longrightarrow>
           code_at (encode_rows m ! j) k = code_at (payload ! j) k"
proof -
  let ?n = "bytes_per_row ncols"
  let ?bs = "\<lambda>r. take ?n (drop (r * ?n) payload)"
  have m: "m = map (\<lambda>r. decode_row ncols (?bs r)) [0..<nrows]"
    using v d by (simp add: decode_rows_def)
  show lm: "length m = nrows" by (simp add: m)
  have lbs: "length (?bs r) = ?n" if "r < nrows" for r
  proof -
    from that have "Suc r \<le> nrows" by simp
    then have "Suc r * ?n \<le> nrows * ?n" by (rule mult_le_mono1)
    then have "r * ?n + ?n \<le> length payload" using v by (simp add: mult.commute)
    then show ?thesis by simp
  qed
  have row: "length (m ! r) = ncols" if "r < nrows" for r
  proof -
    have "length (decode_row ncols (?bs r)) = ncols"
      by (rule length_decode_row [OF lbs [OF that]])
    moreover have "m ! r = decode_row ncols (?bs r)" using that by (simp add: m)
    ultimately show ?thesis by (simp only:)
  qed
  show rows: "\<forall>row\<in>set m. length row = ncols"
    using row lm by (auto simp: in_set_conv_nth)
  have u: "\<forall>x\<in>set (map encode_row m). length x = ?n"
    using rows by (simp add: length_encode_row)
  show "length (encode_rows m) = length payload"
    using length_concat_uniform [OF u] by (simp add: encode_rows_def lm v mult.commute)
  show "\<forall>j<length payload. \<forall>k<4. 4 * (j mod ?n) + k < ncols \<longrightarrow>
           code_at (encode_rows m ! j) k = code_at (payload ! j) k"
  proof (intro allI impI)
    fix j k
    assume j: "j < length payload" and k: "k < (4::nat)" and c: "4 * (j mod ?n) + k < ncols"
    from j v have pos: "0 < ?n" by (cases "?n = 0") simp_all
    let ?r = "j div ?n" and ?q = "j mod ?n"
    have q: "?q < ?n" using pos by simp
    have r: "?r < nrows"
      using j v pos by (simp add: less_mult_imp_div_less mult.commute)
    have jj: "?r * ?n + ?q = j" by simp
    have "encode_rows m ! (?r * ?n + ?q) = map encode_row m ! ?r ! ?q"
      unfolding encode_rows_def
      by (rule nth_concat_uniform [OF u _ q]) (simp add: lm r)
    then have e: "encode_rows m ! j = encode_row (decode_row ncols (?bs ?r)) ! ?q"
      using r by (simp add: m)
    have "code_at (encode_row (decode_row ncols (?bs ?r)) ! ?q) k = code_at (?bs ?r ! ?q) k"
      by (rule encode_decode_row [OF lbs [OF r] q k c])
    also have "?bs ?r ! ?q = payload ! j"
    proof -
      have "?r * ?n \<le> j" by (metis jj le_add1)
      moreover from j have "j \<le> length payload" by simp
      ultimately have "?r * ?n \<le> length payload" by (rule order_trans)
      then have "drop (?r * ?n) payload ! ?q = payload ! (?r * ?n + ?q)"
        by (rule nth_drop)
      moreover have "?bs ?r ! ?q = drop (?r * ?n) payload ! ?q"
        using q by (rule nth_take)
      ultimately show ?thesis by (simp only: jj)
    qed
    finally show "code_at (encode_rows m ! j) k = code_at (payload ! j) k"
      by (simp add: e)
  qed
qed

lemma decode_rows_valid:
  "length payload = bytes_per_row ncols * nrows \<Longrightarrow> \<exists>m. decode_rows payload nrows ncols = Inr m"
  by (simp add: decode_rows_def)

lemma transpose_transpose_matrix:
  assumes "length m = nr" and "\<forall>row\<in>set m. length row = nc"
  shows "transpose_matrix nc nr (transpose_matrix nr nc m) = m"
proof (rule nth_equalityI)
  show "length (transpose_matrix nc nr (transpose_matrix nr nc m)) = length m"
    using assms(1) by (simp add: transpose_matrix_def)
next
  fix r assume "r < length (transpose_matrix nc nr (transpose_matrix nr nc m))"
  then have r: "r < nr" by (simp add: transpose_matrix_def)
  with assms have lr: "length (m ! r) = nc" by simp
  show "transpose_matrix nc nr (transpose_matrix nr nc m) ! r = m ! r"
    by (rule nth_equalityI) (simp_all add: transpose_matrix_def r lr)
qed

lemma byte_eq_codes:
  assumes "\<forall>k<4. code_at a k = code_at b k"
  shows "a = b"
proof (rule bit_word_eqI)
  fix n assume n: "n < LENGTH(8)"
  then have k: "n div 2 < 4" by simp
  have "bit a n = bit (code_at a (n div 2)) (n mod 2)" by (simp add: bit_code_at)
  also have "\<dots> = bit (code_at b (n div 2)) (n mod 2)" using assms k by simp
  also have "\<dots> = bit b n" by (simp add: bit_code_at)
  finally show "bit a n = bit b n" .
qed

lemma roundtrip_exact:
  assumes l: "length enc = length payload"
    and v: "length payload = bytes_per_row ncols * nrows"
    and a: "\<forall>j<length payload. \<forall>k<4. 4 * (j mod bytes_per_row ncols) + k < ncols \<longrightarrow>
              code_at (enc ! j) k = code_at (payload ! j) k"
    and z: "ncols mod 4 = 0"
  shows "enc = payload"
proof (rule nth_equalityI [OF l])
  fix j assume "j < length enc"
  with l have j: "j < length payload" by simp
  let ?n = "bytes_per_row ncols"
  from j v have pos: "0 < ?n" by (cases "?n = 0") simp_all
  from z have n4: "4 * ?n = ncols" by (auto simp: bytes_per_row_def)
  have "\<forall>k<4. code_at (enc ! j) k = code_at (payload ! j) k"
  proof (intro allI impI)
    fix k :: nat assume k: "k < 4"
    have "j mod ?n < ?n" using pos by simp
    then have "4 * (j mod ?n) + k < 4 * ?n" using k by simp
    then have "4 * (j mod ?n) + k < ncols" by (simp only: n4)
    with a j k show "code_at (enc ! j) k = code_at (payload ! j) k" by blast
  qed
  then show "enc ! j = payload ! j" by (rule byte_eq_codes)
qed

lemma length_transpose_matrix: "length (transpose_matrix nr nc m) = nc"
  by (simp add: transpose_matrix_def)

lemma rows_transpose_matrix: "\<forall>row\<in>set (transpose_matrix nr nc m). length row = nr"
  by (auto simp: transpose_matrix_def)

text \<open>
  C4.  For every valid packed payload (its size is \<open>bytes_per_row * num_physical_rows\<close>),
  in either orientation, the codec decodes it into a GenotypeMatrix of logical shape
  (num_markers, num_samples), and re-encoding that matrix through the inverse of the
  4-way mapping gives a payload of the same size that agrees with the original in every
  2-bit code that is not row padding; when the number of columns is a multiple of four
  there is no padding, and the re-encoded bytes are the original bytes.
\<close>

theorem bed_roundtrip:
  assumes "physical_dims major num_samples num_markers = (nrows, ncols)"
    and "length payload = bytes_per_row ncols * nrows"
  shows "\<exists>m. bit_unpack payload num_samples num_markers major = Inr m \<and>
     length m = num_markers \<and> (\<forall>row\<in>set m. length row = num_samples) \<and>
     length (bit_pack major num_samples num_markers m) = length payload \<and>
     (\<forall>j<length payload. \<forall>k<4. 4 * (j mod bytes_per_row ncols) + k < ncols \<longrightarrow>
        code_at (bit_pack major num_samples num_markers m ! j) k = code_at (payload ! j) k) \<and>
     (ncols mod 4 = 0 \<longrightarrow> bit_pack major num_samples num_markers m = payload)"
proof -
  from decode_rows_valid [OF assms(2)] obtain ph where
    d: "decode_rows payload nrows ncols = Inr ph" ..
  note rt = decode_rows_roundtrip [OF assms(2) d]
  have ex: "ncols mod 4 = 0 \<longrightarrow> encode_rows ph = payload"
    using roundtrip_exact [OF rt(3) assms(2) rt(4)] by blast
  show ?thesis
  proof (cases major)
    case SnpMajor
    with assms(1) have dims: "nrows = num_markers" "ncols = num_samples" by simp_all
    have u: "bit_unpack payload num_samples num_markers major = Inr ph"
      using d by (simp add: SnpMajor dims)
    have p: "bit_pack major num_samples num_markers ph = encode_rows ph"
      by (simp add: SnpMajor)
    show ?thesis
      apply (rule exI [of _ ph])
      unfolding p
      apply (intro conjI)
           apply (rule u)
          apply (rule rt(1) [unfolded dims])
         apply (rule rt(2) [unfolded dims])
        apply (rule rt(3))
       apply (rule rt(4))
      apply (rule ex)
      done
  next
    case IndividualMajor
    with assms(1) have dims: "nrows = num_samples" "ncols = num_markers" by simp_all
    let ?m = "transpose_matrix num_samples num_markers ph"
    have u: "bit_unpack payload num_samples num_markers major = Inr ?m"
      using d by (simp add: IndividualMajor dims)
    have "transpose_matrix num_markers num_samples ?m = ph"
      by (rule transpose_transpose_matrix [OF rt(1) [unfolded dims] rt(2) [unfolded dims]])
    then have p: "bit_pack major num_samples num_markers ?m = encode_rows ph"
      by (simp add: IndividualMajor)
    show ?thesis
      apply (rule exI [of _ ?m])
      unfolding p
      apply (intro conjI)
           apply (rule u)
          apply (rule length_transpose_matrix)
         apply (rule rows_transpose_matrix)
        apply (rule rt(3))
       apply (rule rt(4))
      apply (rule ex)
      done
  qed
qed

theorem bed_roundtrip_witness:
  "physical_dims SnpMajor 2 3 = (3, 2) \<and>
   length [0xD8, 0x0C, 0x27 :: byte] = bytes_per_row 2 * 3 \<and>
   bit_unpack [0xD8, 0x0C, 0x27] 2 3 SnpMajor = Inr [[2, 1], [2, 0], [0, 3]] \<and>
   bit_pack SnpMajor 2 3 [[2, 1], [2, 0], [0, 3]] = [0x08, 0x0C, 0x07] \<and>
   length (bit_pack SnpMajor 2 3 [[2, 1], [2, 0], [0, 3]]) = length [0xD8, 0x0C, 0x27 :: byte] \<and>
   code_at (bit_pack SnpMajor 2 3 [[2, 1], [2, 0], [0, 3]] ! 0) 1 = code_at 0xD8 1 \<and>
   physical_dims IndividualMajor 2 4 = (2, 4) \<and>
   length [0xD8, 0x27 :: byte] = bytes_per_row 4 * 2 \<and>
   bit_unpack [0xD8, 0x27] 2 4 IndividualMajor = Inr [[2, 0], [1, 3], [3, 1], [0, 2]] \<and>
   bit_pack IndividualMajor 2 4 [[2, 0], [1, 3], [3, 1], [0, 2]] = [0xD8, 0x27]"
proof -
  have d1: "physical_dims SnpMajor 2 3 = (3, 2)" by simp
  have l1: "length [0xD8, 0x0C, 0x27 :: byte] = bytes_per_row 2 * 3"
    by (simp add: bytes_per_row_def)
  have u1: "bit_unpack [0xD8, 0x0C, 0x27] 2 3 SnpMajor = Inr [[2, 1], [2, 0], [0, 3]]"
    by code_simp
  have p1: "bit_pack SnpMajor 2 3 [[2, 1], [2, 0], [0, 3]] = [0x08, 0x0C, 0x07]"
    by code_simp
  from bed_roundtrip [OF d1 l1] u1
  have r1: "length (bit_pack SnpMajor 2 3 [[2, 1], [2, 0], [0, 3]]) =
        length [0xD8, 0x0C, 0x27 :: byte]"
    and a1: "\<forall>j<length [0xD8, 0x0C, 0x27 :: byte]. \<forall>k<4. 4 * (j mod bytes_per_row 2) + k < 2 \<longrightarrow>
        code_at (bit_pack SnpMajor 2 3 [[2, 1], [2, 0], [0, 3]] ! j) k =
        code_at ([0xD8, 0x0C, 0x27] ! j) k"
    by auto
  from a1 have c1: "code_at (bit_pack SnpMajor 2 3 [[2, 1], [2, 0], [0, 3]] ! 0) 1 = code_at 0xD8 1"
    by (simp add: bytes_per_row_def)
  have d2: "physical_dims IndividualMajor 2 4 = (2, 4)" by simp
  have l2: "length [0xD8, 0x27 :: byte] = bytes_per_row 4 * 2"
    by (simp add: bytes_per_row_def)
  have u2: "bit_unpack [0xD8, 0x27] 2 4 IndividualMajor = Inr [[2, 0], [1, 3], [3, 1], [0, 2]]"
    by code_simp
  from bed_roundtrip [OF d2 l2] u2
  have p2: "bit_pack IndividualMajor 2 4 [[2, 0], [1, 3], [3, 1], [0, 2]] = [0xD8, 0x27]"
    by auto
  from d1 l1 u1 p1 r1 c1 d2 l2 u2 p2 show ?thesis by (intro conjI)
qed

end
